theory Spec2Isabelle
  imports Complex_Main "HOL-Library.Word"
begin

section \<open>Common types\<close>

type_synonym byte = "8 word"
type_synonym int64 = "64 word"
type_synonym uint32 = "32 word"

text \<open>
  Go error values: \<open>io.EOF\<close>, a value made by \<open>errors.New\<close>, or any other error that the
  operating system reports for a file operation.
\<close>

datatype error = EOF | ErrorNew string | OsError string

text \<open>A call either panics (with its message) or returns.\<close>

datatype 'a outcome = Panic string | Return 'a

section \<open>fileChunkReader.go\<close>

subsection \<open>External collaborators\<close>

text \<open>
  The file handle \<open>*os.File\<close> is owned outside this code. All that the reader does with it
  is one positioned read, so the handle is modelled by what that read answers: given the
  size of the destination and the absolute offset, the bytes it delivers and the error it
  reports. No relation between the two is assumed. The \<open>ReadAt\<close> of the Go library reports
  an error whenever it delivers fewer bytes than asked, so the handles of this type cover
  more than a file can do; what is proved for all of them holds for every file.
\<close>

type_synonym File = "nat \<Rightarrow> int64 \<Rightarrow> byte list \<times> error option"

text \<open>
  \<open>file.ReadAt(b, off)\<close>: fills a prefix of \<open>b\<close> and returns the number of bytes read
  (never more than \<open>len(b)\<close>) and the error. The first component is \<open>b\<close> after the call.
\<close>

definition File_ReadAt :: "File \<Rightarrow> byte list \<Rightarrow> int64 \<Rightarrow> byte list \<times> nat \<times> error option" where
  "File_ReadAt f b off =
     (case f (length b) off of
        (d, err) \<Rightarrow>
          (let n = min (length d) (length b)
           in (take n d @ drop n b, n, err)))"

text \<open>
  Modelled from the spec: the type \<open>SharedCounter\<close> and its method \<open>Add\<close> are not among the
  source files. The specification describes the tracker as a signed 64-bit accumulator
  exposing a single \<open>Add(delta)\<close> operation. The value below is the current content of the
  counter that the reader's pointer refers to.
\<close>

type_synonym SharedCounter = int64

definition SharedCounter_Add :: "SharedCounter \<Rightarrow> int64 \<Rightarrow> SharedCounter" where
  "SharedCounter_Add c delta = c + delta"

text \<open>The constants \<open>io.SeekStart\<close>, \<open>io.SeekCurrent\<close> and \<open>io.SeekEnd\<close> of the Go library.\<close>

definition io_SeekStart :: int where "io_SeekStart = 0"
definition io_SeekCurrent :: int where "io_SeekCurrent = 1"
definition io_SeekEnd :: int where "io_SeekEnd = 2"

subsection \<open>The reader\<close>

text \<open>
  The struct \<open>simpleFileChunkReader\<close>. The fields \<open>file\<close> and \<open>length\<close> are named \<open>file_handle\<close> and \<open>length_chunk\<close> here;
  \<open>buffer\<close> is \<open>None\<close> for the nil slice.
\<close>

record simpleFileChunkReader =
  file_handle :: File
  offsetInFile :: int64
  length_chunk :: int64
  positionInChunk :: int64
  buffer :: "byte list option"
  prefetchedByteTracker :: SharedCounter

definition NewSimpleFileChunkReader ::
  "File \<Rightarrow> int64 \<Rightarrow> int64 \<Rightarrow> SharedCounter \<Rightarrow> simpleFileChunkReader outcome" where
  "NewSimpleFileChunkReader f offset len tracker =
     (if len \<le>s 0 then Panic ''length must be greater than zero''
      else Return \<lparr> file_handle = f, offsetInFile = offset, length_chunk = len,
                    positionInChunk = 0, buffer = None,
                    prefetchedByteTracker = tracker \<rparr>)"

text \<open>
  \<open>Prefetch\<close>. The buffer is assigned before the read, and both error returns leave it
  assigned. \<open>make([]byte, n)\<close> panics for a negative \<open>n\<close>. It also panics for an \<open>n\<close>
  beyond what the allocator accepts, a limit of the platform that is not modelled: what is
  proved below about \<open>Prefetch\<close> is about the calls that return.
\<close>

definition Prefetch :: "simpleFileChunkReader \<Rightarrow> (simpleFileChunkReader \<times> error option) outcome" where
  "Prefetch cr =
     (case buffer cr of
        Some b \<Rightarrow> Return (cr, None)
      | None \<Rightarrow>
          if length_chunk cr <s 0 then Panic ''makeslice: len out of range''
          else
            (case File_ReadAt (file_handle cr) (replicate (nat (sint (length_chunk cr))) 0) (offsetInFile cr) of
               (buf, bytesRead, err) \<Rightarrow>
                 (let cr1 = cr\<lparr>buffer := Some buf\<rparr>
                  in case err of
                       Some e \<Rightarrow> Return (cr1, Some e)
                     | None \<Rightarrow>
                         if (word_of_nat bytesRead :: int64) \<noteq> length_chunk cr1
                         then Return (cr1, Some (ErrorNew ''bytes read not equal to expected length. Chunk reader must be constructed so that it won't read past end of file''))
                         else Return (cr1\<lparr>prefetchedByteTracker :=
                                SharedCounter_Add (prefetchedByteTracker cr1) (word_of_nat bytesRead)\<rparr>, None))))"

text \<open>The \<open>switch\<close> of \<open>Seek\<close>: the new position before it is checked. An unknown whence leaves
  the current position.\<close>

definition Seek_newPosition :: "simpleFileChunkReader \<Rightarrow> int64 \<Rightarrow> int \<Rightarrow> int64" where
  "Seek_newPosition cr offset whence =
     (if whence = io_SeekStart then offset
      else if whence = io_SeekCurrent then positionInChunk cr + offset
      else if whence = io_SeekEnd then length_chunk cr - offset
      else positionInChunk cr)"

definition Seek :: "simpleFileChunkReader \<Rightarrow> int64 \<Rightarrow> int \<Rightarrow> simpleFileChunkReader \<times> int64 \<times> error option" where
  "Seek cr offset whence =
     (let newPosition = Seek_newPosition cr offset whence
      in if newPosition <s 0 then (cr, 0, Some (ErrorNew ''cannot seek to before beginning''))
         else
           (let newPosition = (if length_chunk cr <s newPosition then length_chunk cr else newPosition);
                cr1 = cr\<lparr>positionInChunk := newPosition\<rparr>
            in (cr1, positionInChunk cr1, None)))"

definition discardBuffer :: "simpleFileChunkReader \<Rightarrow> simpleFileChunkReader" where
  "discardBuffer cr =
     (case buffer cr of
        None \<Rightarrow> cr
      | Some b \<Rightarrow> cr\<lparr>buffer := None,
                     prefetchedByteTracker := SharedCounter_Add (prefetchedByteTracker cr) (- length_chunk cr)\<rparr>)"

text \<open>
  \<open>Read(p)\<close> returns the reader, \<open>p\<close> after the call, the count and the error. The slice
  expression \<open>cr.buffer[cr.positionInChunk:]\<close> panics when the position is outside the buffer.
\<close>

definition Read ::
  "simpleFileChunkReader \<Rightarrow> byte list \<Rightarrow> (simpleFileChunkReader \<times> byte list \<times> nat \<times> error option) outcome" where
  "Read cr p =
     (if length_chunk cr \<le>s positionInChunk cr then Return (cr, p, 0, Some EOF)
      else
        (case Prefetch cr of
           Panic m \<Rightarrow> Panic m
         | Return (cr1, Some e) \<Rightarrow> Return (cr1, p, 0, Some e)
         | Return (cr1, None) \<Rightarrow>
             (let b = (case buffer cr1 of None \<Rightarrow> [] | Some b \<Rightarrow> b)
              in if positionInChunk cr1 <s 0 \<or> int (length b) < sint (positionInChunk cr1)
                 then Panic ''slice bounds out of range''
                 else
                   (let src = drop (nat (sint (positionInChunk cr1))) b;
                        bytesCopied = min (length p) (length src);
                        p1 = take bytesCopied src @ drop bytesCopied p;
                        cr2 = cr1\<lparr>positionInChunk := positionInChunk cr1 + word_of_nat bytesCopied\<rparr>;
                        isEof = (length_chunk cr2 \<le>s positionInChunk cr2)
                    in if isEof then Return (discardBuffer cr2, p1, bytesCopied, Some EOF)
                       else Return (cr2, p1, bytesCopied, None)))))"

definition Close :: "simpleFileChunkReader \<Rightarrow> simpleFileChunkReader \<times> error option" where
  "Close cr = (discardBuffer cr, None)"

subsection \<open>Reachable reader states\<close>

text \<open>
  The states a reader can be in: built by the constructor, then driven by any sequence of
  the four operations with any arguments. Between calls the shared file and the shared
  counter may change at the hands of others.
\<close>

inductive reachable :: "simpleFileChunkReader \<Rightarrow> bool" where
  r_new: "NewSimpleFileChunkReader f offset len tracker = Return cr \<Longrightarrow> reachable cr"
| r_prefetch: "reachable cr \<Longrightarrow> Prefetch cr = Return (cr1, e) \<Longrightarrow> reachable cr1"
| r_seek: "reachable cr \<Longrightarrow> Seek cr offset whence = (cr1, pos, e) \<Longrightarrow> reachable cr1"
| r_read: "reachable cr \<Longrightarrow> Read cr p = Return (cr1, p1, n, e) \<Longrightarrow> reachable cr1"
| r_close: "reachable cr \<Longrightarrow> Close cr = (cr1, e) \<Longrightarrow> reachable cr1"
| r_env: "reachable cr \<Longrightarrow> reachable (cr\<lparr>file_handle := f, prefetchedByteTracker := t\<rparr>)"

text \<open>What every reachable reader satisfies: a positive length, a cursor inside the chunk,
  and a buffer that, when held, has exactly \<open>length\<close> bytes.\<close>

definition reader_inv :: "simpleFileChunkReader \<Rightarrow> bool" where
  "reader_inv cr \<longleftrightarrow>
     0 <s length_chunk cr \<and> 0 \<le>s positionInChunk cr \<and> positionInChunk cr \<le>s length_chunk cr \<and>
     (case buffer cr of None \<Rightarrow> True | Some b \<Rightarrow> length b = nat (sint (length_chunk cr)))"

subsection \<open>Cycles of materializing and discarding\<close>

text \<open>
  An operation on a reader that holds its buffer and still holds it afterwards; an
  operation that drops the held buffer; and a full cycle: a successful \<open>Prefetch\<close> from the
  state without buffer, any operations that keep the buffer, and the discard.
\<close>

inductive keeps_buffer :: "simpleFileChunkReader \<Rightarrow> simpleFileChunkReader \<Rightarrow> bool" where
  k_prefetch: "buffer cr \<noteq> None \<Longrightarrow> Prefetch cr = Return (cr1, e) \<Longrightarrow> keeps_buffer cr cr1"
| k_seek: "buffer cr \<noteq> None \<Longrightarrow> Seek cr offset whence = (cr1, pos, e) \<Longrightarrow> keeps_buffer cr cr1"
| k_read: "buffer cr \<noteq> None \<Longrightarrow> Read cr p = Return (cr1, p1, n, e) \<Longrightarrow> buffer cr1 \<noteq> None \<Longrightarrow>
           keeps_buffer cr cr1"

inductive discards :: "simpleFileChunkReader \<Rightarrow> simpleFileChunkReader \<Rightarrow> bool" where
  d_close: "buffer cr \<noteq> None \<Longrightarrow> Close cr = (cr1, e) \<Longrightarrow> discards cr cr1"
| d_read: "buffer cr \<noteq> None \<Longrightarrow> Read cr p = Return (cr1, p1, n, e) \<Longrightarrow> buffer cr1 = None \<Longrightarrow>
           discards cr cr1"

inductive cycle :: "simpleFileChunkReader \<Rightarrow> simpleFileChunkReader \<Rightarrow> bool" where
  cycleI: "buffer cr = None \<Longrightarrow> Prefetch cr = Return (cr1, None) \<Longrightarrow> keeps_buffer\<^sup>*\<^sup>* cr1 cr2 \<Longrightarrow>
           discards cr2 cr3 \<Longrightarrow> cycle cr cr3"

subsection \<open>Example readers\<close>

text \<open>
  Two file handles: one that delivers every byte asked for and one that fails.
  \<open>reader4\<close> is the reader the constructor returns for offset 0, length 4 and a tracker
  that stands at 10.
\<close>

definition full_file :: File where
  "full_file n off = (replicate n 7, None)"

definition failing_file :: File where
  "failing_file n off = ([], Some (OsError ''input/output error''))"

definition reader4 :: "File \<Rightarrow> simpleFileChunkReader" where
  "reader4 f = \<lparr> file_handle = f, offsetInFile = 0, length_chunk = 4,
                 positionInChunk = 0, buffer = None, prefetchedByteTracker = 10 \<rparr>"

section \<open>multiSizeSlicePool.go\<close>

subsection \<open>Library functions and slices\<close>

text \<open>
  \<open>bits.Len32\<close>, \<open>bits.LeadingZeros32\<close> and \<open>bits.OnesCount32\<close> of the Go library
  \<open>math/bits\<close>: the number of bits needed to write a value, the number of leading zero
  bits of a 32-bit value (32 for zero), and the number of one bits.
\<close>

fun bits_Len :: "nat \<Rightarrow> nat" where
  "bits_Len n = (if n = 0 then 0 else Suc (bits_Len (n div 2)))"

fun bits_OnesCount :: "nat \<Rightarrow> nat" where
  "bits_OnesCount n = (if n = 0 then 0 else n mod 2 + bits_OnesCount (n div 2))"

declare bits_Len.simps [simp del] bits_OnesCount.simps [simp del]

definition bits_LeadingZeros32 :: "uint32 \<Rightarrow> nat" where
  "bits_LeadingZeros32 x = 32 - bits_Len (unat x)"

definition bits_OnesCount32 :: "uint32 \<Rightarrow> nat" where
  "bits_OnesCount32 x = bits_OnesCount (unat x)"

text \<open>
  A byte slice: the part of its backing array from the start of the slice on, whose length
  is the capacity, and the length of the slice. A slice of capacity 0 stands for \<open>nil\<close> too.
\<close>

record byteSlice =
  backing :: "byte list"
  slice_len :: nat

definition slice_cap :: "byteSlice \<Rightarrow> nat" where
  "slice_cap s = length (backing s)"

text \<open>\<open>make([]byte, n, c)\<close> panics when the length exceeds the capacity.\<close>

definition make_bytes :: "nat \<Rightarrow> nat \<Rightarrow> byteSlice outcome" where
  "make_bytes n c =
     (if c < n then Panic ''makeslice: cap out of range''
      else Return \<lparr> backing = replicate c 0, slice_len = n \<rparr>)"

subsection \<open>simpleSlicePool\<close>

text \<open>
  The buffered channel \<open>c\<close> of the struct is the list of the slices waiting in it, oldest
  first, together with its capacity; the fields are named \<open>chan\<close> and \<open>chan_cap\<close>.
  Both \<open>select\<close> statements have a \<open>default\<close> branch, so neither \<open>Get\<close> nor \<open>Put\<close> waits.
\<close>

record simpleSlicePool =
  chan :: "byteSlice list"
  chan_cap :: nat

definition newSimpleSlicePool :: "nat \<Rightarrow> simpleSlicePool" where
  "newSimpleSlicePool maxCapacity = \<lparr> chan = [], chan_cap = maxCapacity \<rparr>"

definition Get :: "simpleSlicePool \<Rightarrow> byteSlice option \<times> simpleSlicePool" where
  "Get p = (case chan p of [] \<Rightarrow> (None, p) | existingItem # rest \<Rightarrow> (Some existingItem, p\<lparr>chan := rest\<rparr>))"

definition Put :: "simpleSlicePool \<Rightarrow> byteSlice \<Rightarrow> simpleSlicePool" where
  "Put p b = (if length (chan p) < chan_cap p then p\<lparr>chan := chan p @ [b]\<rparr> else p)"

subsection \<open>multiSizeSlicePool\<close>

record multiSizeSlicePool =
  poolsBySize :: "simpleSlicePool list"

text \<open>
  \<open>getSlotInfo\<close> returns \<open>(slotIndex, maxCapInSlot)\<close>. Both are of Go's type \<open>int\<close>, taken to
  be 64 bits wide; the slot index is at most 32, so the shift \<open>1 << slotIndex\<close> does not
  overflow and the two are natural numbers here. Past the guard the argument is not zero,
  so it has at most 31 leading zeros and the subtraction stays above zero.
\<close>

definition getSlotInfo :: "uint32 \<Rightarrow> (nat \<times> nat) outcome" where
  "getSlotInfo exactSliceLength =
     (if exactSliceLength \<le> 0 then Panic ''exact slice length must be greater than zero''
      else
        (let rawSlotIndex = 31 - bits_LeadingZeros32 exactSliceLength;
             isExactPowerOfTwo = (bits_OnesCount32 exactSliceLength = 1);
             slotIndex = (if isExactPowerOfTwo then rawSlotIndex else rawSlotIndex + 1);
             maxCapInSlot = push_bit slotIndex 1
         in Return (slotIndex, maxCapInSlot)))"

definition NewMultiSizeSlicePool :: "uint32 \<Rightarrow> multiSizeSlicePool outcome" where
  "NewMultiSizeSlicePool maxSliceLength =
     (case getSlotInfo maxSliceLength of
        Panic m \<Rightarrow> Panic m
      | Return (maxSlotIndex, _) \<Rightarrow>
          Return \<lparr> poolsBySize = map (\<lambda>i. newSimpleSlicePool 1000) [0 ..< maxSlotIndex + 1] \<rparr>)"

text \<open>
  \<open>RentSlice\<close> returns the slice and the pool after the call. Indexing \<open>poolsBySize\<close>
  beyond its length panics, and so does re-slicing beyond the capacity. The buckets hold
  slices that are not \<open>nil\<close>: \<open>ReturnSlice\<close> panics on a slice of capacity 0 before it
  reaches a bucket.
\<close>

definition RentSlice :: "multiSizeSlicePool \<Rightarrow> uint32 \<Rightarrow> (byteSlice \<times> multiSizeSlicePool) outcome" where
  "RentSlice mp desiredSize =
     (case getSlotInfo desiredSize of
        Panic m \<Rightarrow> Panic m
      | Return (slotIndex, maxCapInSlot) \<Rightarrow>
          if length (poolsBySize mp) \<le> slotIndex then Panic ''index out of range''
          else
            (case Get (poolsBySize mp ! slotIndex) of
               (Some typedSlice, pool1) \<Rightarrow>
                 if slice_cap typedSlice < unat desiredSize then Panic ''slice bounds out of range''
                 else Return (typedSlice\<lparr>slice_len := unat desiredSize\<rparr>,
                              mp\<lparr>poolsBySize := (poolsBySize mp)[slotIndex := pool1]\<rparr>)
             | (None, pool1) \<Rightarrow>
                 (case make_bytes (unat desiredSize) maxCapInSlot of
                    Panic m \<Rightarrow> Panic m
                  | Return s \<Rightarrow> Return (s, mp))))"

definition ReturnSlice :: "multiSizeSlicePool \<Rightarrow> byteSlice \<Rightarrow> multiSizeSlicePool outcome" where
  "ReturnSlice mp slice_b =
     (case getSlotInfo (word_of_nat (slice_cap slice_b)) of
        Panic m \<Rightarrow> Panic m
      | Return (slotIndex, _) \<Rightarrow>
          if length (poolsBySize mp) \<le> slotIndex then Panic ''index out of range''
          else Return (mp\<lparr>poolsBySize :=
                 (poolsBySize mp)[slotIndex := Put (poolsBySize mp ! slotIndex) slice_b]\<rparr>))"

text \<open>Every slice waiting in a bucket has the capacity of that bucket.\<close>

definition pool_ok :: "multiSizeSlicePool \<Rightarrow> bool" where
  "pool_ok mp \<longleftrightarrow>
     (\<forall>i < length (poolsBySize mp). \<forall>s \<in> set (chan (poolsBySize mp ! i)). slice_cap s = 2 ^ i)"

subsection \<open>Example pool\<close>

text \<open>The pool that \<open>NewMultiSizeSlicePool(4)\<close> returns: three empty buckets.\<close>

definition pool4 :: multiSizeSlicePool where
  "pool4 = \<lparr> poolsBySize = [newSimpleSlicePool 1000, newSimpleSlicePool 1000, newSimpleSlicePool 1000] \<rparr>"

section \<open>Properties of the chunk reader\<close>

subsection \<open>Auxiliary facts\<close>

lemma sint_add_of_nat:
  fixes x y :: int64
  assumes "0 \<le> sint x" "sint x + int n \<le> sint y"
  shows "sint (x + word_of_nat n) = sint x + int n"
proof -
  have "sint y < 2 ^ 63" using sint_lt [of y] by simp
  then have r: "sint x + int n < 2 ^ 63" "- (2 ^ 63) \<le> sint x + int n" using assms by auto
  have "x + word_of_nat n = word_of_int (sint x + int n)"
    by simp
  then have "sint (x + word_of_nat n) = signed_take_bit 63 (sint x + int n)"
    by (simp only: sint_sbintrunc') simp
  also have "\<dots> = sint x + int n"
    using r by (simp add: signed_take_bit_int_eq_self)
  finally show ?thesis .
qed

lemma Prefetch_held: "buffer cr = Some b \<Longrightarrow> Prefetch cr = Return (cr, None)"
  by (simp add: Prefetch_def)

lemma File_ReadAt_length: "File_ReadAt f b off = (b', n, e) \<Longrightarrow> length b' = length b \<and> n \<le> length b"
  by (auto simp: File_ReadAt_def Let_def split: prod.splits)

lemma Prefetch_error:
  assumes "Prefetch cr = Return (cr1, Some e)"
  shows "\<exists>b. buffer cr = None \<and> buffer cr1 = Some b \<and> length b = nat (sint (length_chunk cr)) \<and> cr1 = cr\<lparr>buffer := Some b\<rparr>"
  using assms
  by (auto simp: Prefetch_def Let_def  split: option.splits if_splits prod.splits dest!: File_ReadAt_length)

lemma Prefetch_success:
  assumes "Prefetch cr = Return (cr1, None)" "buffer cr = None"
  shows "\<exists>b. buffer cr1 = Some b \<and> length b = nat (sint (length_chunk cr)) \<and> cr1 = cr\<lparr>buffer := Some b, prefetchedByteTracker := prefetchedByteTracker cr + length_chunk cr\<rparr>"
  using assms
  by (auto simp: Prefetch_def Let_def SharedCounter_Add_def split: option.splits if_splits prod.splits dest!: File_ReadAt_length)

lemma inv_prefetch: "reader_inv cr \<Longrightarrow> Prefetch cr = Return (cr1, e) \<Longrightarrow> reader_inv cr1"
  apply (cases "buffer cr")
   apply (cases e)
  apply (auto simp: reader_inv_def dest!: Prefetch_success Prefetch_error)[2]
  apply (simp add: Prefetch_held)
  done

lemma inv_discard: "reader_inv cr \<Longrightarrow> reader_inv (discardBuffer cr)"
  by (auto simp: reader_inv_def discardBuffer_def split: option.splits)

lemma inv_seek: "reader_inv cr \<Longrightarrow> Seek cr offset whence = (cr1, pos, e) \<Longrightarrow> reader_inv cr1"
  by (auto simp: reader_inv_def Seek_def Let_def signed.not_less split: if_splits option.splits)

text \<open>The copy step of Read, on a reader that holds its buffer.\<close>

lemma Read_copy:
  fixes p :: "byte list"
  assumes inv: "reader_inv cr" and lt: "positionInChunk cr <s length_chunk cr"
    and pf: "Prefetch cr = Return (cr1, None)"
  defines "k \<equiv> min (length p) (nat (sint (length_chunk cr) - sint (positionInChunk cr)))"
  shows "\<exists>b. buffer cr1 = Some b \<and> length b = nat (sint (length_chunk cr)) \<and>
           Read cr p =
             (let p1 = take k (drop (nat (sint (positionInChunk cr))) b) @ drop k p;
                  cr2 = cr1\<lparr>positionInChunk := positionInChunk cr + word_of_nat k\<rparr>
              in if sint (positionInChunk cr) + int k = sint (length_chunk cr)
                 then Return (cr2\<lparr>buffer := None, prefetchedByteTracker := prefetchedByteTracker cr1 - length_chunk cr\<rparr>, p1, k, Some EOF)
                 else Return (cr2, p1, k, None)) \<and>
           sint (positionInChunk cr + word_of_nat k) = sint (positionInChunk cr) + int k"
proof -
  have inv1: "reader_inv cr1" using inv pf by (rule inv_prefetch)
  have same: "positionInChunk cr1 = positionInChunk cr" "length_chunk cr1 = length_chunk cr"
    using pf by (cases "buffer cr"; auto simp: Prefetch_held dest!: Prefetch_success)+
  obtain b where b: "buffer cr1 = Some b"
    using pf by (cases "buffer cr"; auto simp: Prefetch_held dest!: Prefetch_success)
  have lb: "length b = nat (sint (length_chunk cr))"
    using inv1 b same by (simp add: reader_inv_def)
  have p0: "0 \<le> sint (positionInChunk cr)" "sint (positionInChunk cr) < sint (length_chunk cr)"
    using inv lt by (simp_all add: reader_inv_def word_sle_eq word_sless_alt)
  have kle: "sint (positionInChunk cr) + int k \<le> sint (length_chunk cr)"
    using p0 by (simp add: k_def)
  have s: "sint (positionInChunk cr + word_of_nat k) = sint (positionInChunk cr) + int k"
    using p0(1) kle by (rule sint_add_of_nat)
  have nle: "\<not> length_chunk cr \<le>s positionInChunk cr"
    using lt by (simp add: signed.not_le)
  have keq: "min (length p) (nat (sint (length_chunk cr)) - nat (sint (positionInChunk cr))) = k"
    using p0 by (simp add: k_def nat_diff_distrib)
  have "Read cr p =
             (let p1 = take k (drop (nat (sint (positionInChunk cr))) b) @ drop k p;
                  cr2 = cr1\<lparr>positionInChunk := positionInChunk cr + word_of_nat k\<rparr>
              in if sint (positionInChunk cr) + int k = sint (length_chunk cr)
                 then Return (cr2\<lparr>buffer := None, prefetchedByteTracker := prefetchedByteTracker cr1 - length_chunk cr\<rparr>, p1, k, Some EOF)
                 else Return (cr2, p1, k, None))"
    using nle pf b p0 kle
    apply (simp add: Read_def same Let_def lb keq)
    apply (simp add: word_sle_eq word_sless_alt s same discardBuffer_def SharedCounter_Add_def)
    done
  with b lb s show ?thesis by blast
qed


lemma inv_read: 
  assumes "reader_inv cr" "Read cr p = Return (cr1, p1, n, e)"
  shows "reader_inv cr1"
proof (cases "length_chunk cr \<le>s positionInChunk cr")
  case True
  with assms show ?thesis by (simp add: Read_def)
next
  case False
  then have lt: "positionInChunk cr <s length_chunk cr" by (simp add: signed.not_le)
  show ?thesis
  proof (cases "Prefetch cr")
    case (Panic m)
    with assms False show ?thesis by (simp add: Read_def)
  next
    case (Return r)
    obtain c0 e0 where r: "r = (c0, e0)" by (cases r)
    have inv0: "reader_inv c0" using assms(1) Return r by (auto intro: inv_prefetch)
    show ?thesis
    proof (cases e0)
      case (Some a)
      with assms False Return r inv0 show ?thesis by (simp add: Read_def)
    next
      case None
      with Return r have pf: "Prefetch cr = Return (c0, None)" by simp
      from Read_copy [OF assms(1) lt pf, of p] inv0 assms(2) assms(1) lt
      show ?thesis
        by (auto simp: Let_def reader_inv_def word_sle_eq word_sless_alt split: if_splits)
    qed
  qed
qed

lemma reachable_inv: "reachable cr \<Longrightarrow> reader_inv cr"
proof (induction rule: reachable.induct)
  case (r_new f offset len tracker cr)
  then show ?case by (auto simp: NewSimpleFileChunkReader_def reader_inv_def signed.not_le split: if_splits)
next
  case (r_prefetch cr cr1 e)
  then show ?case by (auto intro: inv_prefetch)
next
  case (r_seek cr offset whence cr1 pos e)
  then show ?case by (auto intro: inv_seek)
next
  case (r_read cr p cr1 p1 n e)
  then show ?case by (auto intro: inv_read)
next
  case (r_close cr cr1 e)
  then show ?case by (auto simp: Close_def intro: inv_discard)
next
  case (r_env cr f t)
  then show ?case by (simp add: reader_inv_def split: option.splits)
qed

subsection \<open>Evaluation on the example readers\<close>

lemma replicate_numeral: "replicate (numeral k) x = x # replicate (pred_numeral k) x"
  by (simp add: numeral_eq_Suc)

lemmas reader_defs = Read_def Prefetch_def File_ReadAt_def Close_def discardBuffer_def
  SharedCounter_Add_def Let_def reader4_def full_file_def failing_file_def
  word_sless_alt word_sle_eq replicate_numeral

lemma reachable_reader4: "reachable (reader4 f)"
proof -
  have "NewSimpleFileChunkReader f 0 4 10 = Return (reader4 f)"
    by (simp add: NewSimpleFileChunkReader_def reader4_def word_sle_eq)
  then show ?thesis by (rule r_new)
qed

lemma Read_reader4_3:
  "Read (reader4 full_file) [0, 0, 0] =
     Return ((reader4 full_file)\<lparr>positionInChunk := 3, buffer := Some [7, 7, 7, 7], prefetchedByteTracker := 14\<rparr>,
             [7, 7, 7], 3, None)"
  by (simp add: reader_defs)

lemma Prefetch_reader4:
  "Prefetch (reader4 full_file) =
     Return ((reader4 full_file)\<lparr>buffer := Some [7, 7, 7, 7], prefetchedByteTracker := 14\<rparr>, None)"
  by (simp add: reader_defs)

lemma Close_reader4:
  "Close ((reader4 full_file)\<lparr>buffer := Some [7, 7, 7, 7], prefetchedByteTracker := 14\<rparr>) =
     (reader4 full_file, None)"
  by (simp add: reader_defs)

lemma Read_all_reader4:
  "Read ((reader4 full_file)\<lparr>buffer := Some [7, 7, 7, 7], prefetchedByteTracker := 14\<rparr>) [0, 0, 0, 0, 0] =
     Return ((reader4 full_file)\<lparr>positionInChunk := 4\<rparr>, [7, 7, 7, 7, 0], 4, Some EOF)"
  by (simp add: reader_defs)

lemma Prefetch_reader4_at_end:
  "Prefetch ((reader4 full_file)\<lparr>positionInChunk := 4\<rparr>) =
     Return ((reader4 full_file)\<lparr>positionInChunk := 4, buffer := Some [7, 7, 7, 7], prefetchedByteTracker := 14\<rparr>, None)"
  by (simp add: reader_defs)

lemma Close_reader4_at_end:
  "Close ((reader4 full_file)\<lparr>positionInChunk := 4, buffer := Some [7, 7, 7, 7], prefetchedByteTracker := 14\<rparr>) =
     ((reader4 full_file)\<lparr>positionInChunk := 4\<rparr>, None)"
  by (simp add: reader_defs)

subsection \<open>Read at the end, Seek\<close>

text \<open>
  Claim C6: a \<open>Read\<close> made when the cursor is at or beyond the length returns
  \<open>(0, EOF)\<close> at once. The reader is returned as it was, buffer and tracker
  included, so no prefetch took place and an exhausted reader does not get its buffer back
  through \<open>Read\<close>.
\<close>

theorem Read_at_end_is_EOF_without_Prefetch:
  assumes "length_chunk cr \<le>s positionInChunk cr"
  shows "Read cr p = Return (cr, p, 0, Some EOF)"
  using assms by (simp add: Read_def)

theorem Read_at_end_is_EOF_without_Prefetch_witness:
  "length_chunk ((reader4 full_file)\<lparr>positionInChunk := 4\<rparr>) \<le>s positionInChunk ((reader4 full_file)\<lparr>positionInChunk := 4\<rparr>) \<and>
   Read ((reader4 full_file)\<lparr>positionInChunk := 4\<rparr>) [1, 2] = Return ((reader4 full_file)\<lparr>positionInChunk := 4\<rparr>, [1, 2], 0, Some EOF) \<and>
   buffer ((reader4 full_file)\<lparr>positionInChunk := 4\<rparr>) = None"
proof -
  have h: "length_chunk ((reader4 full_file)\<lparr>positionInChunk := 4\<rparr>) \<le>s positionInChunk ((reader4 full_file)\<lparr>positionInChunk := 4\<rparr>)"
    by (simp add: reader4_def)
  show ?thesis
    using h Read_at_end_is_EOF_without_Prefetch [OF h, of "[1, 2]"] by (simp add: reader4_def)
qed

text \<open>
  Claim C7: when the new position that \<open>Seek\<close> computes (in 64-bit arithmetic) is
  negative, \<open>Seek\<close> returns an error and the reader is unchanged; when it exceeds
  the length of a reader (whose length is positive, as the constructor demands), the cursor is
  set to the length, which is returned with no error.
\<close>

theorem Seek_negative_rejected_past_end_clamped:
  "(Seek_newPosition cr offset whence <s 0 \<longrightarrow>
      Seek cr offset whence = (cr, 0, Some (ErrorNew ''cannot seek to before beginning''))) \<and>
   (0 <s length_chunk cr \<and> length_chunk cr <s Seek_newPosition cr offset whence \<longrightarrow>
      Seek cr offset whence = (cr\<lparr>positionInChunk := length_chunk cr\<rparr>, length_chunk cr, None))"
  by (simp add: Seek_def Let_def word_sless_alt)

theorem Seek_negative_rejected_past_end_clamped_witness:
  "Seek_newPosition ((reader4 full_file)\<lparr>positionInChunk := 1\<rparr>) (- 3) io_SeekCurrent <s 0 \<and>
   Seek ((reader4 full_file)\<lparr>positionInChunk := 1\<rparr>) (- 3) io_SeekCurrent =
     ((reader4 full_file)\<lparr>positionInChunk := 1\<rparr>, 0, Some (ErrorNew ''cannot seek to before beginning'')) \<and>
   0 <s length_chunk (reader4 full_file) \<and>
   length_chunk (reader4 full_file) <s Seek_newPosition (reader4 full_file) 9 io_SeekStart \<and>
   Seek (reader4 full_file) 9 io_SeekStart = ((reader4 full_file)\<lparr>positionInChunk := 4\<rparr>, 4, None)"
proof -
  have a: "Seek_newPosition ((reader4 full_file)\<lparr>positionInChunk := 1\<rparr>) (- 3) io_SeekCurrent <s 0"
    by (simp add: Seek_newPosition_def io_SeekStart_def io_SeekCurrent_def reader4_def word_sless_alt)
  have b: "0 <s length_chunk (reader4 full_file) \<and>
      length_chunk (reader4 full_file) <s Seek_newPosition (reader4 full_file) 9 io_SeekStart"
    by (simp add: Seek_newPosition_def io_SeekStart_def reader4_def word_sless_alt)
  show ?thesis
    using a b
      Seek_negative_rejected_past_end_clamped [of "(reader4 full_file)\<lparr>positionInChunk := 1\<rparr>" "- 3" io_SeekCurrent]
      Seek_negative_rejected_past_end_clamped [of "reader4 full_file" 9 io_SeekStart]
    by (simp add: reader4_def word_sless_alt word_sle_eq)
qed

text \<open>
  The position is computed in 64-bit arithmetic: a seek from the current position 1 by the
  largest offset wraps around to a negative value and is rejected.
\<close>

lemma Seek_current_wraps:
  "Seek ((reader4 full_file)\<lparr>positionInChunk := 1\<rparr>) 9223372036854775807 io_SeekCurrent =
     ((reader4 full_file)\<lparr>positionInChunk := 1\<rparr>, 0, Some (ErrorNew ''cannot seek to before beginning''))"
  by (simp add: Seek_def Seek_newPosition_def io_SeekStart_def io_SeekCurrent_def reader4_def
      word_sless_alt)

text \<open>
  Claim C8: for a seek from the end the position that is checked and stored is
  \<open>length - offset\<close>; in particular \<open>Seek(0, from-end)\<close> on a reader
  of length \<open>L\<close> returns \<open>L\<close>.
\<close>

theorem Seek_from_end_subtracts:
  "Seek cr offset io_SeekEnd =
     (if length_chunk cr - offset <s 0
      then (cr, 0, Some (ErrorNew ''cannot seek to before beginning''))
      else if length_chunk cr <s length_chunk cr - offset
      then (cr\<lparr>positionInChunk := length_chunk cr\<rparr>, length_chunk cr, None)
      else (cr\<lparr>positionInChunk := length_chunk cr - offset\<rparr>, length_chunk cr - offset, None)) \<and>
   (0 <s length_chunk cr \<longrightarrow>
      Seek cr 0 io_SeekEnd = (cr\<lparr>positionInChunk := length_chunk cr\<rparr>, length_chunk cr, None))"
  by (simp add: Seek_def Seek_newPosition_def Let_def io_SeekEnd_def io_SeekStart_def
      io_SeekCurrent_def word_sless_alt)

theorem Seek_from_end_subtracts_witness:
  "0 <s length_chunk (reader4 full_file) \<and>
   Seek (reader4 full_file) 0 io_SeekEnd = ((reader4 full_file)\<lparr>positionInChunk := 4\<rparr>, 4, None) \<and>
   Seek (reader4 full_file) 3 io_SeekEnd = ((reader4 full_file)\<lparr>positionInChunk := 1\<rparr>, 1, None)"
proof -
  have h: "0 <s length_chunk (reader4 full_file)" by (simp add: reader4_def word_sless_alt)
  show ?thesis
    using h Seek_from_end_subtracts [of "reader4 full_file" 0] Seek_from_end_subtracts [of "reader4 full_file" 3]
    by (simp add: reader4_def word_sless_alt word_sle_eq)
qed

subsection \<open>The cursor invariant\<close>

text \<open>
  Claim C9: \<open>0 \<le> positionInChunk \<le> length\<close> holds for the reader that the
  constructor returns and after every \<open>Read\<close>, \<open>Seek\<close>,
  \<open>Prefetch\<close> and \<open>Close\<close>, whatever their arguments and results: it
  holds in every reachable state.
\<close>

theorem cursor_stays_within_chunk:
  assumes "reachable cr"
  shows "0 \<le>s positionInChunk cr \<and> positionInChunk cr \<le>s length_chunk cr"
  using reachable_inv [OF assms] by (simp add: reader_inv_def)

theorem cursor_stays_within_chunk_witness:
  "reachable ((reader4 full_file)\<lparr>positionInChunk := 3, buffer := Some [7, 7, 7, 7], prefetchedByteTracker := 14\<rparr>) \<and>
   0 \<le>s positionInChunk ((reader4 full_file)\<lparr>positionInChunk := 3, buffer := Some [7, 7, 7, 7], prefetchedByteTracker := 14\<rparr>) \<and>
   positionInChunk ((reader4 full_file)\<lparr>positionInChunk := 3, buffer := Some [7, 7, 7, 7], prefetchedByteTracker := 14\<rparr>)
     \<le>s length_chunk ((reader4 full_file)\<lparr>positionInChunk := 3, buffer := Some [7, 7, 7, 7], prefetchedByteTracker := 14\<rparr>)"
proof -
  have r: "reachable ((reader4 full_file)\<lparr>positionInChunk := 3, buffer := Some [7, 7, 7, 7], prefetchedByteTracker := 14\<rparr>)"
    using reachable_reader4 Read_reader4_3 by (rule r_read)
  show ?thesis
    using r cursor_stays_within_chunk [OF r] by simp
qed

subsection \<open>Prefetch that fails\<close>

text \<open>
  Claim C10: after a \<open>Prefetch\<close> that returned an error the reader holds the
  buffer of \<open>length\<close> bytes allocated by that call and the tracker is as before; a
  further \<open>Prefetch\<close> succeeds whatever the file would answer and changes nothing,
  and \<open>Close\<close> takes \<open>length\<close> off the tracker, so that the failed
  prefetch followed by \<open>Close\<close> leaves the tracker at its starting value minus
  \<open>length\<close>.
\<close>

theorem failed_Prefetch_keeps_buffer:
  assumes "Prefetch cr = Return (cr1, Some e)"
  shows "(\<exists>b. buffer cr1 = Some b \<and> length b = nat (sint (length_chunk cr))) \<and>
         prefetchedByteTracker cr1 = prefetchedByteTracker cr \<and>
         (\<forall>f. Prefetch (cr1\<lparr>file_handle := f\<rparr>) = Return (cr1\<lparr>file_handle := f\<rparr>, None)) \<and>
         Close cr1 = (cr1\<lparr>buffer := None,
                          prefetchedByteTracker := prefetchedByteTracker cr - length_chunk cr\<rparr>, None)"
proof -
  from Prefetch_error [OF assms] obtain b where
    b: "buffer cr = None" "buffer cr1 = Some b" "length b = nat (sint (length_chunk cr))"
      "cr1 = cr\<lparr>buffer := Some b\<rparr>" by blast
  have "\<forall>f. Prefetch (cr1\<lparr>file_handle := f\<rparr>) = Return (cr1\<lparr>file_handle := f\<rparr>, None)"
    using b(2) by (simp add: Prefetch_def)
  moreover have "Close cr1 = (cr1\<lparr>buffer := None,
                          prefetchedByteTracker := prefetchedByteTracker cr - length_chunk cr\<rparr>, None)"
    using b by (simp add: Close_def discardBuffer_def SharedCounter_Add_def)
  ultimately show ?thesis using b by simp
qed

theorem failed_Prefetch_keeps_buffer_witness:
  "Prefetch (reader4 failing_file) =
     Return ((reader4 failing_file)\<lparr>buffer := Some [0, 0, 0, 0]\<rparr>, Some (OsError ''input/output error'')) \<and>
   Prefetch ((reader4 failing_file)\<lparr>buffer := Some [0, 0, 0, 0]\<rparr>) =
     Return ((reader4 failing_file)\<lparr>buffer := Some [0, 0, 0, 0]\<rparr>, None) \<and>
   Close ((reader4 failing_file)\<lparr>buffer := Some [0, 0, 0, 0]\<rparr>) =
     ((reader4 failing_file)\<lparr>prefetchedByteTracker := 6\<rparr>, None)"
proof -
  have h: "Prefetch (reader4 failing_file) =
     Return ((reader4 failing_file)\<lparr>buffer := Some [0, 0, 0, 0]\<rparr>, Some (OsError ''input/output error''))"
    by (simp add: reader_defs)
  from failed_Prefetch_keeps_buffer [OF h]
  have "(\<forall>f. Prefetch ((reader4 failing_file)\<lparr>buffer := Some [0, 0, 0, 0], file_handle := f\<rparr>) =
            Return ((reader4 failing_file)\<lparr>buffer := Some [0, 0, 0, 0], file_handle := f\<rparr>, None))"
    and c: "Close ((reader4 failing_file)\<lparr>buffer := Some [0, 0, 0, 0]\<rparr>) =
       ((reader4 failing_file)\<lparr>buffer := Some [0, 0, 0, 0], buffer := None,
           prefetchedByteTracker := prefetchedByteTracker (reader4 failing_file) - length_chunk (reader4 failing_file)\<rparr>, None)"
    by simp_all
  then have "Prefetch ((reader4 failing_file)\<lparr>buffer := Some [0, 0, 0, 0], file_handle := failing_file\<rparr>) =
            Return ((reader4 failing_file)\<lparr>buffer := Some [0, 0, 0, 0], file_handle := failing_file\<rparr>, None)"
    by blast
  then have p: "Prefetch ((reader4 failing_file)\<lparr>buffer := Some [0, 0, 0, 0]\<rparr>) =
     Return ((reader4 failing_file)\<lparr>buffer := Some [0, 0, 0, 0]\<rparr>, None)"
    by (simp add: reader4_def)
  show ?thesis using h p c by (simp add: reader4_def)
qed

subsection \<open>Read that copies\<close>

text \<open>
  Claim C5: a \<open>Read(p)\<close> with the cursor before the end, on a reader whose
  \<open>Prefetch\<close> succeeds, copies
  \<open>k = min(len(p), length - positionInChunk)\<close> bytes of the buffer from the cursor
  on and advances the cursor by \<open>k\<close>; when the cursor thereby reaches
  \<open>length\<close> the same call drops the buffer, takes \<open>length\<close> off the
  tracker and returns \<open>k\<close> with \<open>EOF\<close>, otherwise it returns
  \<open>k\<close> with no error.
\<close>

theorem Read_copies_and_reports_EOF_on_same_call:
  fixes p :: "byte list"
  assumes "reachable cr" and "positionInChunk cr <s length_chunk cr"
    and "Prefetch cr = Return (cr1, None)"
  shows "\<exists>b. buffer cr1 = Some b \<and> length b = nat (sint (length_chunk cr)) \<and>
           Read cr p =
             (let k = min (length p) (nat (sint (length_chunk cr) - sint (positionInChunk cr)));
                  p1 = take k (drop (nat (sint (positionInChunk cr))) b) @ drop k p;
                  cr2 = cr1\<lparr>positionInChunk := positionInChunk cr + word_of_nat k\<rparr>
              in if sint (positionInChunk cr) + int k = sint (length_chunk cr)
                 then Return (cr2\<lparr>buffer := None,
                                  prefetchedByteTracker := prefetchedByteTracker cr1 - length_chunk cr\<rparr>,
                              p1, k, Some EOF)
                 else Return (cr2, p1, k, None)) \<and>
           sint (positionInChunk cr + word_of_nat (min (length p) (nat (sint (length_chunk cr) - sint (positionInChunk cr)))))
             = sint (positionInChunk cr) + int (min (length p) (nat (sint (length_chunk cr) - sint (positionInChunk cr))))"
  using Read_copy [OF reachable_inv [OF assms(1)] assms(2) assms(3), of p]
  by (simp add: Let_def)

theorem Read_copies_and_reports_EOF_on_same_call_witness:
  "reachable (reader4 full_file) \<and> positionInChunk (reader4 full_file) <s length_chunk (reader4 full_file) \<and>
   Prefetch (reader4 full_file) =
     Return ((reader4 full_file)\<lparr>buffer := Some [7, 7, 7, 7], prefetchedByteTracker := 14\<rparr>, None) \<and>
   Read (reader4 full_file) [0, 0, 0, 0, 0] =
     Return ((reader4 full_file)\<lparr>positionInChunk := 4\<rparr>, [7, 7, 7, 7, 0], 4, Some EOF) \<and>
   Read (reader4 full_file) [0, 0, 0] =
     Return ((reader4 full_file)\<lparr>positionInChunk := 3, buffer := Some [7, 7, 7, 7], prefetchedByteTracker := 14\<rparr>,
             [7, 7, 7], 3, None)"
proof -
  have 2: "positionInChunk (reader4 full_file) <s length_chunk (reader4 full_file)"
    by (simp add: reader4_def word_sless_alt)
  show ?thesis
    using reachable_reader4 [of full_file] 2 Prefetch_reader4
      Read_copies_and_reports_EOF_on_same_call [OF reachable_reader4 2 Prefetch_reader4, of "[0, 0, 0, 0, 0]"]
      Read_copies_and_reports_EOF_on_same_call [OF reachable_reader4 2 Prefetch_reader4, of "[0, 0, 0]"]
    by (simp add: reader4_def Let_def)
qed

subsection \<open>Tracker accounting over cycles\<close>

text \<open>Read on a reader that holds its buffer: what can change.\<close>

lemma Read_held:
  assumes "buffer cr = Some b" "Read cr p = Return (cr1, p1, n, e)"
  shows "length_chunk cr1 = length_chunk cr \<and>
         (buffer cr1 = Some b \<and> prefetchedByteTracker cr1 = prefetchedByteTracker cr \<or>
          buffer cr1 = None \<and> e = Some EOF \<and>
            prefetchedByteTracker cr1 = prefetchedByteTracker cr - length_chunk cr)"
  using assms
  by (auto simp: Read_def Prefetch_held Let_def discardBuffer_def SharedCounter_Add_def
      split: if_splits)

lemma keeps_buffer_same:
  assumes "keeps_buffer cr cr1"
  shows "buffer cr1 \<noteq> None \<and> length_chunk cr1 = length_chunk cr \<and>
         prefetchedByteTracker cr1 = prefetchedByteTracker cr"
  using assms
proof cases
  case (k_prefetch e)
  then show ?thesis by (auto simp: Prefetch_held)
next
  case (k_seek offset whence pos e)
  then show ?thesis by (auto simp: Seek_def Let_def split: if_splits)
next
  case (k_read p p1 n e)
  then show ?thesis by (auto dest: Read_held)
qed

lemma keeps_buffer_rtrancl_same:
  assumes "keeps_buffer\<^sup>*\<^sup>* cr cr1" "buffer cr \<noteq> None"
  shows "buffer cr1 \<noteq> None \<and> length_chunk cr1 = length_chunk cr \<and>
         prefetchedByteTracker cr1 = prefetchedByteTracker cr"
  using assms
proof (induction rule: rtranclp_induct)
  case base
  then show ?case by simp
next
  case (step y z)
  then show ?case using keeps_buffer_same [of y z] by simp
qed

lemma discards_subtracts:
  assumes "discards cr cr1"
  shows "buffer cr1 = None \<and> length_chunk cr1 = length_chunk cr \<and>
         prefetchedByteTracker cr1 = prefetchedByteTracker cr - length_chunk cr"
  using assms
proof cases
  case (d_close e)
  then show ?thesis by (auto simp: Close_def discardBuffer_def SharedCounter_Add_def)
next
  case (d_read p p1 n e)
  then show ?thesis by (auto dest: Read_held)
qed

lemma cycle_same:
  assumes "cycle cr cr1"
  shows "buffer cr1 = None \<and> length_chunk cr1 = length_chunk cr \<and>
         prefetchedByteTracker cr1 = prefetchedByteTracker cr"
  using assms
proof cases
  case (cycleI c1 c2)
  from Prefetch_success [OF cycleI(2) cycleI(1)]
  have 1: "buffer c1 \<noteq> None" "length_chunk c1 = length_chunk cr"
    "prefetchedByteTracker c1 = prefetchedByteTracker cr + length_chunk cr" by auto
  from keeps_buffer_rtrancl_same [OF cycleI(3) 1(1)] 1
  have 2: "length_chunk c2 = length_chunk cr"
    "prefetchedByteTracker c2 = prefetchedByteTracker cr + length_chunk cr" by auto
  from discards_subtracts [OF cycleI(4)] 2 show ?thesis by simp
qed

lemma cycles_same:
  "(cycle ^^ n) cr cr1 \<Longrightarrow>
     length_chunk cr1 = length_chunk cr \<and> prefetchedByteTracker cr1 = prefetchedByteTracker cr"
proof (induction n arbitrary: cr1)
  case 0
  then show ?case by simp
next
  case (Suc n)
  from Suc.prems obtain c where c: "(cycle ^^ n) cr c" "cycle c cr1" by auto
  from Suc.IH [OF c(1)] cycle_same [OF c(2)] show ?case by simp
qed

text \<open>
  Claim C2: a successful \<open>Prefetch\<close> from the state without buffer adds
  \<open>length\<close> to the tracker, and a repeated \<open>Prefetch\<close> adds nothing;
  the operations that keep the buffer leave the tracker alone; the discard, by
  \<open>Close\<close> or by the \<open>Read\<close> that reaches the end, subtracts
  \<open>length\<close>; discarding is idempotent and does nothing without a buffer; so one
  cycle, and any number \<open>n\<close> of cycles, leave the tracker at its starting value.
\<close>

theorem materialize_discard_cycle_net_zero:
  "(buffer cr = None \<and> Prefetch cr = Return (cr1, None) \<longrightarrow>
      prefetchedByteTracker cr1 = prefetchedByteTracker cr + length_chunk cr \<and>
      buffer cr1 \<noteq> None \<and> Prefetch cr1 = Return (cr1, None)) \<and>
   (keeps_buffer cr cr1 \<longrightarrow> prefetchedByteTracker cr1 = prefetchedByteTracker cr) \<and>
   (discards cr cr1 \<longrightarrow>
      buffer cr1 = None \<and> prefetchedByteTracker cr1 = prefetchedByteTracker cr - length_chunk cr) \<and>
   discardBuffer (discardBuffer cr) = discardBuffer cr \<and>
   (buffer cr = None \<longrightarrow> discardBuffer cr = cr \<and> Close cr = (cr, None)) \<and>
   (cycle cr cr1 \<longrightarrow> prefetchedByteTracker cr1 = prefetchedByteTracker cr) \<and>
   ((cycle ^^ n) cr cr1 \<longrightarrow> prefetchedByteTracker cr1 = prefetchedByteTracker cr)"
proof -
  have 1: "buffer cr = None \<and> Prefetch cr = Return (cr1, None) \<longrightarrow>
      prefetchedByteTracker cr1 = prefetchedByteTracker cr + length_chunk cr \<and>
      buffer cr1 \<noteq> None \<and> Prefetch cr1 = Return (cr1, None)"
    by (auto dest!: Prefetch_success simp: Prefetch_held)
  have 2: "discardBuffer (discardBuffer cr) = discardBuffer cr"
    by (simp add: discardBuffer_def split: option.splits)
  have 3: "buffer cr = None \<longrightarrow> discardBuffer cr = cr \<and> Close cr = (cr, None)"
    by (simp add: discardBuffer_def Close_def)
  show ?thesis
    using 1 2 3 keeps_buffer_same [of cr cr1] discards_subtracts [of cr cr1]
      cycle_same [of cr cr1] cycles_same [of n cr cr1]
    by blast
qed

lemma cycle_reader4_by_Read: "cycle (reader4 full_file) ((reader4 full_file)\<lparr>positionInChunk := 4\<rparr>)"
proof (rule cycleI)
  show "buffer (reader4 full_file) = None" by (simp add: reader4_def)
  show "Prefetch (reader4 full_file) =
     Return ((reader4 full_file)\<lparr>buffer := Some [7, 7, 7, 7], prefetchedByteTracker := 14\<rparr>, None)"
    by (rule Prefetch_reader4)
  show "keeps_buffer\<^sup>*\<^sup>* ((reader4 full_file)\<lparr>buffer := Some [7, 7, 7, 7], prefetchedByteTracker := 14\<rparr>)
     ((reader4 full_file)\<lparr>buffer := Some [7, 7, 7, 7], prefetchedByteTracker := 14\<rparr>)"
    by simp
  show "discards ((reader4 full_file)\<lparr>buffer := Some [7, 7, 7, 7], prefetchedByteTracker := 14\<rparr>)
     ((reader4 full_file)\<lparr>positionInChunk := 4\<rparr>)"
    by (rule d_read [OF _ Read_all_reader4]) (simp_all add: reader4_def)
qed

lemma cycle_reader4_by_Close:
  "cycle ((reader4 full_file)\<lparr>positionInChunk := 4\<rparr>) ((reader4 full_file)\<lparr>positionInChunk := 4\<rparr>)"
proof (rule cycleI)
  show "buffer ((reader4 full_file)\<lparr>positionInChunk := 4\<rparr>) = None" by (simp add: reader4_def)
  show "Prefetch ((reader4 full_file)\<lparr>positionInChunk := 4\<rparr>) =
     Return ((reader4 full_file)\<lparr>positionInChunk := 4, buffer := Some [7, 7, 7, 7], prefetchedByteTracker := 14\<rparr>, None)"
    by (rule Prefetch_reader4_at_end)
  show "keeps_buffer\<^sup>*\<^sup>* ((reader4 full_file)\<lparr>positionInChunk := 4, buffer := Some [7, 7, 7, 7], prefetchedByteTracker := 14\<rparr>)
     ((reader4 full_file)\<lparr>positionInChunk := 4, buffer := Some [7, 7, 7, 7], prefetchedByteTracker := 14\<rparr>)"
    by simp
  show "discards ((reader4 full_file)\<lparr>positionInChunk := 4, buffer := Some [7, 7, 7, 7], prefetchedByteTracker := 14\<rparr>)
     ((reader4 full_file)\<lparr>positionInChunk := 4\<rparr>)"
    by (rule d_close [OF _ Close_reader4_at_end]) simp
qed

theorem materialize_discard_cycle_net_zero_witness:
  "buffer (reader4 full_file) = None \<and>
   Prefetch (reader4 full_file) =
     Return ((reader4 full_file)\<lparr>buffer := Some [7, 7, 7, 7], prefetchedByteTracker := 14\<rparr>, None) \<and>
   (cycle ^^ Suc (Suc 0)) (reader4 full_file) ((reader4 full_file)\<lparr>positionInChunk := 4\<rparr>) \<and>
   prefetchedByteTracker ((reader4 full_file)\<lparr>buffer := Some [7, 7, 7, 7], prefetchedByteTracker := 14\<rparr>) =
     prefetchedByteTracker (reader4 full_file) + length_chunk (reader4 full_file) \<and>
   prefetchedByteTracker ((reader4 full_file)\<lparr>positionInChunk := 4\<rparr>) = prefetchedByteTracker (reader4 full_file)"
proof -
  have b: "buffer (reader4 full_file) = None" by (simp add: reader4_def)
  have c: "(cycle ^^ Suc (Suc 0)) (reader4 full_file) ((reader4 full_file)\<lparr>positionInChunk := 4\<rparr>)"
    using cycle_reader4_by_Read cycle_reader4_by_Close by auto
  show ?thesis
    using b c Prefetch_reader4
      materialize_discard_cycle_net_zero [of "reader4 full_file"
        "(reader4 full_file)\<lparr>buffer := Some [7, 7, 7, 7], prefetchedByteTracker := 14\<rparr>" 0]
      materialize_discard_cycle_net_zero [of "reader4 full_file"
        "(reader4 full_file)\<lparr>positionInChunk := 4\<rparr>" "Suc (Suc 0)"]
    by blast
qed

section \<open>Properties of the slice pool\<close>

subsection \<open>Bit counting\<close>

lemma bits_Len_bounds: "0 < n \<Longrightarrow> 2 ^ (bits_Len n - 1) \<le> n \<and> n < 2 ^ bits_Len n"
proof (induction n rule: bits_Len.induct)
  case (1 n)
  show ?case
  proof (cases "n div 2 = 0")
    case True
    with "1.prems" have "n = 1" by (simp add: div_eq_0_iff) 
    then show ?thesis by (simp add: bits_Len.simps)
  next
    case False
    then have pos: "0 < n div 2" by simp
    from "1.IH" "1.prems" pos
    have ih: "2 ^ (bits_Len (n div 2) - 1) \<le> n div 2" "n div 2 < 2 ^ bits_Len (n div 2)" by auto
    have l: "bits_Len n = Suc (bits_Len (n div 2))" using "1.prems" by (subst bits_Len.simps) simp
    have lp: "0 < bits_Len (n div 2)" using pos by (subst bits_Len.simps) simp
    have "2 ^ (bits_Len n - 1) = 2 * 2 ^ (bits_Len (n div 2) - 1)"
      using l lp by (cases "bits_Len (n div 2)") simp_all
    also have "\<dots> \<le> 2 * (n div 2)" using ih(1) by simp
    also have "\<dots> \<le> n" by simp
    finally have a: "2 ^ (bits_Len n - 1) \<le> n" .
    have "n < 2 * (n div 2) + 2" by presburger
    also have "\<dots> \<le> 2 * 2 ^ bits_Len (n div 2)" using ih(2) by simp
    finally have b: "n < 2 ^ bits_Len n" using l by simp
    from a b show ?thesis ..
  qed
qed

lemma bits_OnesCount_zero: "bits_OnesCount n = 0 \<longleftrightarrow> n = 0"
proof (induction n rule: bits_OnesCount.induct)
  case (1 n)
  show ?case
  proof (cases "n = 0")
    case True
    then show ?thesis by (simp add: bits_OnesCount.simps)
  next
    case False
    have "bits_OnesCount n = n mod 2 + bits_OnesCount (n div 2)"
      using False by (subst bits_OnesCount.simps) simp
    with "1.IH" False show ?thesis by (auto simp: div_eq_0_iff)
  qed
qed

lemma bits_OnesCount_one: "bits_OnesCount n = 1 \<longleftrightarrow> (\<exists>k. n = 2 ^ k)"
proof (induction n rule: bits_OnesCount.induct)
  case (1 n)
  show ?case
  proof (cases "n = 0")
    case True
    then show ?thesis by (simp add: bits_OnesCount.simps)
  next
    case False
    have eq: "bits_OnesCount n = n mod 2 + bits_OnesCount (n div 2)"
      using False by (subst bits_OnesCount.simps) simp
    have ih: "bits_OnesCount (n div 2) = 1 \<longleftrightarrow> (\<exists>k. n div 2 = 2 ^ k)"
      using "1.IH" False by simp
    show ?thesis
    proof (cases "even n")
      case True
      then have m: "n mod 2 = 0" by presburger
      have "(\<exists>k. n div 2 = 2 ^ k) \<longleftrightarrow> (\<exists>k. n = 2 ^ k)"
      proof
        assume "\<exists>k. n div 2 = 2 ^ k"
        then obtain k where "n div 2 = 2 ^ k" ..
        with True have "n = 2 ^ Suc k" by auto
        then show "\<exists>k. n = 2 ^ k" ..
      next
        assume "\<exists>k. n = 2 ^ k"
        then obtain k where k: "n = 2 ^ k" ..
        with True False have "k \<noteq> 0" by (cases k) auto
        then obtain j where "k = Suc j" by (cases k) auto
        with k have "n div 2 = 2 ^ j" by simp
        then show "\<exists>k. n div 2 = 2 ^ k" ..
      qed
      with eq m ih show ?thesis by simp
    next
      case False
      then have m: "n mod 2 = 1" by presburger
      have "(\<exists>k. n = 2 ^ k) \<longleftrightarrow> n = 1"
      proof
        assume "\<exists>k. n = 2 ^ k"
        then obtain k where k: "n = 2 ^ k" ..
        with False show "n = 1" by (cases k) auto
      next
        assume "n = 1"
        then have "n = 2 ^ 0" by simp
        then show "\<exists>k. n = 2 ^ k" ..
      qed
      moreover have "n div 2 = 0 \<longleftrightarrow> n = 1"
        using False by presburger
      then have "bits_OnesCount (n div 2) = 0 \<longleftrightarrow> n = 1"
        by (simp add: bits_OnesCount_zero)
      ultimately show ?thesis using eq m by simp
    qed
  qed
qed

subsection \<open>The slot of a size\<close>

lemma bits_Len_pos: "0 < n \<Longrightarrow> 0 < bits_Len n"
  by (subst bits_Len.simps) simp

lemma bits_Len_le_32:
  assumes "n < 2 ^ 32" shows "bits_Len n \<le> 32"
proof (cases "n = 0")
  case True
  then show ?thesis by (simp add: bits_Len.simps)
next
  case False
  then have "(2::nat) ^ (bits_Len n - 1) \<le> n" using bits_Len_bounds [of n] by simp
  with assms have "(2::nat) ^ (bits_Len n - 1) < 2 ^ 32" by simp
  then have "bits_Len n - 1 < 32" by (simp only: power_strict_increasing_iff one_less_numeral_iff semiring_norm)
  then show ?thesis by simp
qed

lemma bits_Len_floor_log:
  assumes "0 < n"
  shows "\<lfloor>log 2 (real n)\<rfloor> = int (bits_Len n - 1)"
proof -
  have "(2::nat) ^ (bits_Len n - 1) \<le> n" "n < 2 ^ (bits_Len n - 1 + 1)"
    using bits_Len_bounds [OF assms] bits_Len_pos [OF assms] by simp_all
  from floor_log_nat_eq_if [OF this] show ?thesis by simp
qed

text \<open>What getSlotInfo computes: the least exponent whose power of two covers the size.\<close>

lemma getSlotInfo_Return:
  assumes "x \<noteq> 0"
  defines "k \<equiv> bits_Len (unat x) - 1 + (if \<exists>j. unat x = 2 ^ j then 0 else 1)"
  shows "getSlotInfo x = Return (k, 2 ^ k)"
    and "unat x \<le> 2 ^ k"
    and "0 < k \<Longrightarrow> 2 ^ (k - 1) < unat x"
    and "k \<le> 32"
proof -
  have pos: "0 < unat x" using assms(1) by (simp add: unat_gt_0)
  have lt: "unat x < 2 ^ 32" using unsigned_less [of x, where ?'a = nat] by simp
  have L: "0 < bits_Len (unat x)" "bits_Len (unat x) \<le> 32"
    using bits_Len_pos [OF pos] bits_Len_le_32 [OF lt] by auto
  have raw: "31 - (32 - bits_Len (unat x)) = bits_Len (unat x) - 1" using L by arith
  have b: "2 ^ (bits_Len (unat x) - 1) \<le> unat x" "unat x < 2 ^ bits_Len (unat x)"
    using bits_Len_bounds [OF pos] by auto
  show "getSlotInfo x = Return (k, 2 ^ k)"
    using assms(1)
    by (simp add: getSlotInfo_def Let_def bits_LeadingZeros32_def bits_OnesCount32_def raw
        bits_OnesCount_one [unfolded One_nat_def] k_def)
  have pow: "k = j" if "unat x = 2 ^ j" for j
  proof -
    from that b have "(2::nat) ^ j < 2 ^ bits_Len (unat x)" "(2::nat) ^ (bits_Len (unat x) - 1) \<le> 2 ^ j"
      by simp_all
    then have "j < bits_Len (unat x)" "bits_Len (unat x) - 1 \<le> j" by simp_all
    then have "bits_Len (unat x) - 1 = j" by arith
    moreover have "\<exists>j. unat x = 2 ^ j" using that ..
    ultimately show ?thesis by (simp only: k_def if_True add_0_right)
  qed
  have npow: "k = bits_Len (unat x)" if "\<not> (\<exists>j. unat x = 2 ^ j)"
    using that L by (simp add: k_def)
  show "unat x \<le> 2 ^ k"
  proof (cases "\<exists>j. unat x = 2 ^ j")
    case True
    then obtain j where j: "unat x = 2 ^ j" ..
    from pow [OF j] j show ?thesis by simp
  next
    case False
    from npow [OF False] b show ?thesis by simp
  qed
  show "k \<le> 32"
  proof (cases "\<exists>j. unat x = 2 ^ j")
    case True
    then show ?thesis using L by (simp add: k_def)
  next
    case False
    then show ?thesis using L by (simp add: k_def)
  qed
  show "2 ^ (k - 1) < unat x" if "0 < k"
  proof (cases "\<exists>j. unat x = 2 ^ j")
    case True
    then obtain j where j: "unat x = 2 ^ j" ..
    from pow [OF j] j that show ?thesis by simp
  next
    case False
    have "unat x \<noteq> 2 ^ (bits_Len (unat x) - 1)" using False by blast
    with b(1) npow [OF False] show ?thesis by simp
  qed
qed

lemma getSlotInfo_zero: "getSlotInfo 0 = Panic ''exact slice length must be greater than zero''"
  by (simp add: getSlotInfo_def)

lemma getSlotInfo_mono:
  assumes "a \<noteq> 0" "a \<le> b" "getSlotInfo a = Return (i, ci)" "getSlotInfo b = Return (j, cj)"
  shows "i \<le> j"
proof (rule ccontr)
  assume "\<not> i \<le> j"
  then have ji: "j \<le> i - 1" "0 < i" by simp_all
  have bne: "b \<noteq> 0" using assms(1,2) by auto
  have "unat b \<le> 2 ^ j" using getSlotInfo_Return(1,2) [OF bne] assms(4) by simp
  also have "(2::nat) ^ j \<le> 2 ^ (i - 1)" using ji(1) by simp
  also have "\<dots> < unat a" using getSlotInfo_Return(1,3) [OF assms(1)] assms(3) ji(2) by simp
  finally have "unat b < unat a" .
  with assms(2) show False by (simp add: word_le_nat_alt)
qed

lemmas slot_eval = getSlotInfo_def bits_LeadingZeros32_def bits_OnesCount32_def
  bits_Len.simps bits_OnesCount.simps Let_def

text \<open>
  Claim C4: for every size greater than zero \<open>getSlotInfo\<close> returns the slot index
  \<open>floor(log2(size))\<close>, plus one unless the size is an exact power of two, together with
  \<open>2 ^ slotIndex\<close> as the capacity of the slot; sizes 1, 2, 3, 256 and 257 go to the slots
  0, 1, 2, 8 and 9 with the capacities 1, 2, 4, 256 and 512.
\<close>

theorem getSlotInfo_rounds_log2_up:
  "(desiredSize \<noteq> 0 \<longrightarrow>
      (\<exists>slotIndex. getSlotInfo desiredSize = Return (slotIndex, 2 ^ slotIndex) \<and>
         int slotIndex = \<lfloor>log 2 (real (unat desiredSize))\<rfloor> +
                           (if \<exists>k. unat desiredSize = 2 ^ k then 0 else 1))) \<and>
   getSlotInfo 1 = Return (0, 1) \<and>
   getSlotInfo 2 = Return (1, 2) \<and>
   getSlotInfo 3 = Return (2, 4) \<and>
   getSlotInfo 256 = Return (8, 256) \<and>
   getSlotInfo 257 = Return (9, 512)"
proof -
  have g: "desiredSize \<noteq> 0 \<longrightarrow>
      (\<exists>slotIndex. getSlotInfo desiredSize = Return (slotIndex, 2 ^ slotIndex) \<and>
         int slotIndex = \<lfloor>log 2 (real (unat desiredSize))\<rfloor> +
                           (if \<exists>k. unat desiredSize = 2 ^ k then 0 else 1))"
  proof
    assume ne: "desiredSize \<noteq> 0"
    then have pos: "0 < unat desiredSize" by (simp add: unat_gt_0)
    show "\<exists>slotIndex. getSlotInfo desiredSize = Return (slotIndex, 2 ^ slotIndex) \<and>
         int slotIndex = \<lfloor>log 2 (real (unat desiredSize))\<rfloor> +
                           (if \<exists>k. unat desiredSize = 2 ^ k then 0 else 1)"
      using getSlotInfo_Return(1) [OF ne] bits_Len_floor_log [OF pos] by auto
  qed
  have 1: "getSlotInfo 1 = Return (0, 1)" by (simp add: slot_eval)
  have 2: "getSlotInfo 2 = Return (1, 2)" by (simp add: slot_eval)
  have 3: "getSlotInfo 3 = Return (2, 4)" by (simp add: slot_eval)
  have 4: "getSlotInfo 256 = Return (8, 256)" by (simp add: slot_eval)
  have 5: "getSlotInfo 257 = Return (9, 512)" by (simp add: slot_eval)
  from g 1 2 3 4 5 show ?thesis by blast
qed

theorem getSlotInfo_rounds_log2_up_witness:
  "(257 :: uint32) \<noteq> 0 \<and> getSlotInfo 257 = Return (9, 512) \<and>
   \<lfloor>log 2 (real (unat (257 :: uint32)))\<rfloor> + (if \<exists>k. unat (257 :: uint32) = 2 ^ k then 0 else 1) = 9"
proof -
  have ne: "(257 :: uint32) \<noteq> 0" by simp
  from getSlotInfo_rounds_log2_up [of 257] ne
  obtain slotIndex where s: "getSlotInfo 257 = Return (slotIndex, 2 ^ slotIndex)"
    "int slotIndex = \<lfloor>log 2 (real (unat (257 :: uint32)))\<rfloor> +
       (if \<exists>k. unat (257 :: uint32) = 2 ^ k then 0 else 1)"
    and e: "getSlotInfo 257 = Return (9, 512)"
    by blast
  from s(1) e have "slotIndex = 9" by simp
  with s(2) e ne show ?thesis by simp
qed

subsection \<open>Renting and returning\<close>

lemma getSlotInfo_power_of_two:
  assumes "unat x = 2 ^ j"
  shows "getSlotInfo x = Return (j, 2 ^ j)"
proof -
  have ne: "x \<noteq> 0" using assms by (auto simp flip: unat_gt_0)
  define k where "k = bits_Len (unat x) - 1 + (if \<exists>j. unat x = 2 ^ j then 0 else 1)"
  note r = getSlotInfo_Return [OF ne, folded k_def]
  have "(2::nat) ^ j \<le> 2 ^ k" using r(2) assms by simp
  then have 1: "j \<le> k" by simp
  have 2: "k \<le> j"
  proof (cases "0 < k")
    case True
    from r(3) [OF True] assms have "(2::nat) ^ (k - 1) < 2 ^ j" by simp
    then have "k - 1 < j" by simp
    then show ?thesis by simp
  next
    case False
    then show ?thesis by simp
  qed
  from 1 2 r(1) show ?thesis by simp
qed

lemma NewMultiSizeSlicePool_ok:
  assumes "NewMultiSizeSlicePool maxSliceLength = Return mp"
  shows "pool_ok mp"
    and "\<exists>maxSlotIndex c. getSlotInfo maxSliceLength = Return (maxSlotIndex, c) \<and>
            length (poolsBySize mp) = maxSlotIndex + 1"
  using assms
  by (auto simp: NewMultiSizeSlicePool_def pool_ok_def newSimpleSlicePool_def
      simp del: upt_Suc split: outcome.splits)

lemma Get_chan:
  "Get p = (r, p1) \<Longrightarrow>
     (case r of None \<Rightarrow> chan p = [] \<and> p1 = p | Some s \<Rightarrow> chan p = s # chan p1)"
  by (auto simp: Get_def split: list.splits)

lemma pool_ok_update:
  assumes "pool_ok mp" "i < length (poolsBySize mp)" "\<forall>s \<in> set (chan p). slice_cap s = 2 ^ i"
  shows "pool_ok (mp\<lparr>poolsBySize := (poolsBySize mp)[i := p]\<rparr>)"
  using assms by (auto simp: pool_ok_def nth_list_update)

lemma RentSlice_in_range:
  assumes ok: "pool_ok mp" and g: "getSlotInfo desiredSize = Return (slotIndex, maxCapInSlot)"
    and r: "slotIndex < length (poolsBySize mp)"
  shows "\<exists>s mp1. RentSlice mp desiredSize = Return (s, mp1) \<and>
           slice_len s = unat desiredSize \<and> slice_cap s = 2 ^ slotIndex \<and>
           pool_ok mp1 \<and> length (poolsBySize mp1) = length (poolsBySize mp) \<and>
           (chan (poolsBySize mp ! slotIndex) = [] \<longrightarrow>
              mp1 = mp \<and> s = \<lparr> backing = replicate (2 ^ slotIndex) 0, slice_len = unat desiredSize \<rparr>)"
proof -
  have ne: "desiredSize \<noteq> 0" using g by (auto simp: getSlotInfo_def)
  from getSlotInfo_Return(1,2) [OF ne] g
  have c: "maxCapInSlot = 2 ^ slotIndex" "unat desiredSize \<le> 2 ^ slotIndex" by auto
  obtain got p1 where gp: "Get (poolsBySize mp ! slotIndex) = (got, p1)" by force
  show ?thesis
  proof (cases got)
    case None
    with Get_chan [OF gp] have "chan (poolsBySize mp ! slotIndex) = []" by simp
    then show ?thesis
      using g r gp None c ok
      by (simp add: RentSlice_def make_bytes_def slice_cap_def)
  next
    case (Some ts)
    with Get_chan [OF gp] have ch: "chan (poolsBySize mp ! slotIndex) = ts # chan p1" by simp
    then have cap: "slice_cap ts = 2 ^ slotIndex" "\<forall>s \<in> set (chan p1). slice_cap s = 2 ^ slotIndex"
      using ok r by (auto simp: pool_ok_def)
    have "pool_ok (mp\<lparr>poolsBySize := (poolsBySize mp)[slotIndex := p1]\<rparr>)"
      using ok r cap(2) by (rule pool_ok_update)
    then show ?thesis
      using g r gp Some c cap(1) ch
      by (simp add: RentSlice_def slice_cap_def)
  qed
qed

lemma RentSlice_out_of_range:
  assumes "getSlotInfo desiredSize = Return (slotIndex, maxCapInSlot)"
    and "length (poolsBySize mp) \<le> slotIndex"
  shows "RentSlice mp desiredSize = Panic ''index out of range''"
  using assms by (simp add: RentSlice_def)

lemma bucket_exists_up_to_max:
  assumes "NewMultiSizeSlicePool maxSliceLength = Return mp0"
    and "getSlotInfo desiredSize = Return (slotIndex, maxCapInSlot)"
    and "desiredSize \<le> maxSliceLength"
  shows "slotIndex < length (poolsBySize mp0)"
proof -
  from NewMultiSizeSlicePool_ok(2) [OF assms(1)] obtain m c where
    m: "getSlotInfo maxSliceLength = Return (m, c)" "length (poolsBySize mp0) = m + 1" by blast
  have ne: "desiredSize \<noteq> 0" using assms(2) by (auto simp: getSlotInfo_def)
  from getSlotInfo_mono [OF ne assms(3) assms(2) m(1)] m(2) show ?thesis by simp
qed

text \<open>
  Claim C3, as amended: on a pool whose waiting slices have the capacity of their bucket,
  \<open>RentSlice\<close> of a size greater than zero returns whenever the bucket of that size exists,
  with a slice of exactly that length and of capacity \<open>2 ^ slotIndex\<close>, which is freshly
  allocated when the bucket is empty; the bucket exists for every size up to the
  \<open>maxSliceLength\<close> the pool was made for. When the slot index lies beyond the last bucket,
  \<open>RentSlice\<close> panics.
\<close>

theorem RentSlice_succeeds_where_bucket_exists:
  assumes "pool_ok mp" and "0 < desiredSize"
    and "getSlotInfo desiredSize = Return (slotIndex, maxCapInSlot)"
  shows "(slotIndex < length (poolsBySize mp) \<longrightarrow>
           (\<exists>s mp1. RentSlice mp desiredSize = Return (s, mp1) \<and>
              slice_len s = unat desiredSize \<and> slice_cap s = 2 ^ slotIndex \<and>
              pool_ok mp1 \<and> length (poolsBySize mp1) = length (poolsBySize mp) \<and>
              (chan (poolsBySize mp ! slotIndex) = [] \<longrightarrow>
                 mp1 = mp \<and>
                 s = \<lparr> backing = replicate (2 ^ slotIndex) 0, slice_len = unat desiredSize \<rparr>))) \<and>
         (length (poolsBySize mp) \<le> slotIndex \<longrightarrow>
            RentSlice mp desiredSize = Panic ''index out of range'') \<and>
         (\<forall>maxSliceLength mp0.
            NewMultiSizeSlicePool maxSliceLength = Return mp0 \<and>
            length (poolsBySize mp) = length (poolsBySize mp0) \<and>
            desiredSize \<le> maxSliceLength \<longrightarrow> slotIndex < length (poolsBySize mp))"
  using RentSlice_in_range [OF assms(1,3)] RentSlice_out_of_range [OF assms(3), of mp]
    bucket_exists_up_to_max [OF _ assms(3)]
  by auto

lemmas pool_eval = RentSlice_def ReturnSlice_def NewMultiSizeSlicePool_def Get_def Put_def
  newSimpleSlicePool_def make_bytes_def slice_cap_def pool4_def replicate_numeral

lemma New_pool4: "NewMultiSizeSlicePool 4 = Return pool4"
  by (simp add: slot_eval pool_eval upt_rec)

text \<open>
  On the pool made for slices of up to 4 bytes, renting 5 bytes panics: the slot index 3 is
  outside the three buckets.
\<close>

theorem RentSlice_beyond_max_panics:
  "NewMultiSizeSlicePool 4 = Return pool4 \<and> (0 :: uint32) < 5 \<and>
   RentSlice pool4 5 = Panic ''index out of range''"
  by (simp add: New_pool4) (simp add: slot_eval pool_eval)

lemma pool_ok_pool4: "pool_ok pool4"
  using New_pool4 by (rule NewMultiSizeSlicePool_ok(1))

lemma Put_chan: "set (chan (Put p b)) \<subseteq> insert b (set (chan p))"
  by (auto simp: Put_def)

lemma ReturnSlice_keeps_pool_ok:
  assumes ok: "pool_ok mp" and cap: "slice_cap b = 2 ^ k" and k: "k < 32"
    and ret: "ReturnSlice mp b = Return mp1"
  shows "pool_ok mp1"
proof -
  have "(2::nat) ^ k < 2 ^ 32" using k by (simp only: power_strict_increasing_iff one_less_numeral_iff semiring_norm)
  then have "(2::nat) ^ k mod 2 ^ 32 = 2 ^ k" by (rule mod_less)
  then have "unat (word_of_nat (slice_cap b) :: uint32) = 2 ^ k"
    by (simp only: cap unat_of_nat) simp
  then have g: "getSlotInfo (word_of_nat (slice_cap b)) = Return (k, 2 ^ k)"
    by (rule getSlotInfo_power_of_two)
  from ret g have r: "k < length (poolsBySize mp)"
    and mp1: "mp1 = mp\<lparr>poolsBySize := (poolsBySize mp)[k := Put (poolsBySize mp ! k) b]\<rparr>"
    by (auto simp: ReturnSlice_def split: if_splits)
  have "\<forall>s \<in> set (chan (Put (poolsBySize mp ! k) b)). slice_cap s = 2 ^ k"
    using Put_chan [of "poolsBySize mp ! k" b] ok r cap by (auto simp: pool_ok_def)
  with ok r show ?thesis unfolding mp1 by (rule pool_ok_update)
qed

theorem RentSlice_succeeds_where_bucket_exists_witness:
  "pool_ok pool4 \<and> (0 :: uint32) < 3 \<and> getSlotInfo 3 = Return (2, 4) \<and>
   2 < length (poolsBySize pool4) \<and>
   RentSlice pool4 3 = Return (\<lparr> backing = [0, 0, 0, 0], slice_len = 3 \<rparr>, pool4) \<and>
   NewMultiSizeSlicePool 4 = Return pool4 \<and> (3 :: uint32) \<le> 4"
proof -
  have p: "(0 :: uint32) < 3" by simp
  have g: "getSlotInfo 3 = Return (2, 4)" by (simp add: slot_eval)
  have l: "2 < length (poolsBySize pool4)" "chan (poolsBySize pool4 ! 2) = []"
    by (simp_all add: pool4_def newSimpleSlicePool_def)
  from RentSlice_succeeds_where_bucket_exists [OF pool_ok_pool4 p g] l
  have "RentSlice pool4 3 = Return (\<lparr> backing = replicate (2 ^ 2) 0, slice_len = unat (3 :: uint32) \<rparr>, pool4)"
    by auto
  then have "RentSlice pool4 3 = Return (\<lparr> backing = [0, 0, 0, 0], slice_len = 3 \<rparr>, pool4)"
    by (simp add: replicate_numeral)
  with pool_ok_pool4 p g l(1) New_pool4 show ?thesis by simp
qed

text \<open>
  A slice that did not come from the pool can be returned to it. It waits in the bucket of
  the next power of two, and renting the full capacity of that bucket then panics.
\<close>

lemma RentSlice_foreign_slice_panics:
  "ReturnSlice \<lparr> poolsBySize = replicate 4 (newSimpleSlicePool 1000) \<rparr>
       \<lparr> backing = [0, 0, 0, 0, 0], slice_len = 5 \<rparr> =
     Return \<lparr> poolsBySize = [newSimpleSlicePool 1000, newSimpleSlicePool 1000, newSimpleSlicePool 1000,
                \<lparr> chan = [\<lparr> backing = [0, 0, 0, 0, 0], slice_len = 5 \<rparr>], chan_cap = 1000 \<rparr>] \<rparr> \<and>
   RentSlice \<lparr> poolsBySize = [newSimpleSlicePool 1000, newSimpleSlicePool 1000, newSimpleSlicePool 1000,
                \<lparr> chan = [\<lparr> backing = [0, 0, 0, 0, 0], slice_len = 5 \<rparr>], chan_cap = 1000 \<rparr>] \<rparr> 8 =
     Panic ''slice bounds out of range''"
  by (simp add: slot_eval pool_eval)

end
